theory Spec2Isabelle
  imports Main
begin

section \<open>Entries and dates\<close>

text \<open>
  The front end (\<^verbatim>\<open>src/frontend/app.js\<close>) keeps the list of entries it fetched from the
  entry store in \<^verbatim>\<open>allEntries\<close>. Of an entry the functions below read the fields
  \<^verbatim>\<open>id\<close>, \<^verbatim>\<open>created_at\<close> and \<^verbatim>\<open>emotions_top3\<close>, and the three fields that
  \<^verbatim>\<open>ensureEntryCached\<close> attaches: \<^verbatim>\<open>_transcript\<close>, \<^verbatim>\<open>_imageTags\<close> and
  \<^verbatim>\<open>_emotions_all\<close>. A field that is \<^verbatim>\<open>undefined\<close> or \<^verbatim>\<open>null\<close> is \<open>None\<close>.

  A JavaScript \<^verbatim>\<open>Date\<close> is modelled by its local calendar day (a day number) and the
  milliseconds elapsed within that day; Dates compare by day first, then by time of day.
  The constructor \<^verbatim>\<open>new Date(s)\<close> is a parameter \<open>parse\<close> of the functions that call
  it (\<open>None\<close> is the Invalid Date, for which \<^verbatim>\<open>isNaN\<close> holds), and so is the clock
  \<open>now\<close> read by \<^verbatim>\<open>new Date()\<close>: one call of an aggregate reads the clock several
  times, and the model takes all its readings to be the same moment.
\<close>

type_synonym jsdate = "int \<times> nat"

datatype js_error = TypeError

record emotion =
  label :: "string option"

record entry =
  entry_id :: nat
  created_at :: "string option"
  emotions_top3 :: "emotion list option"
  transcript_memo :: "string option"
  imageTags_memo :: "string list option"
  emotions_all_memo :: "(string \<times> nat) list option"

definition date_lt :: "jsdate \<Rightarrow> jsdate \<Rightarrow> bool" where
  "date_lt a b = (fst a < fst b \<or> (fst a = fst b \<and> snd a < snd b))"

text \<open>
  \<^verbatim>\<open>function parseLocalDateFromISOish(s) { if (!s) return null; const d = new Date(s);
  return isNaN(d) ? new Date() : d; }\<close>
  The test \<^verbatim>\<open>!s\<close> holds of a missing field and of the empty string.
\<close>

definition parseLocalDateFromISOish ::
  "(string \<Rightarrow> jsdate option) \<Rightarrow> jsdate \<Rightarrow> string option \<Rightarrow> jsdate option" where
  "parseLocalDateFromISOish parse now s =
     (case s of
        None \<Rightarrow> None
      | Some str \<Rightarrow>
          if str = [] then None
          else (case parse str of None \<Rightarrow> Some now | Some d \<Rightarrow> Some d))"

text \<open>
  \<^verbatim>\<open>ymd(d)\<close> renders the local year, month and day of \<open>d\<close>; the rendering is one-to-one
  on calendar days, so the model takes the day number itself as the key.
  \<^verbatim>\<open>daysAgoDate(n)\<close> is local midnight \<open>n\<close> days before today.
\<close>

definition ymd :: "jsdate \<Rightarrow> int" where
  "ymd d = fst d"

definition daysAgoDate :: "jsdate \<Rightarrow> nat \<Rightarrow> jsdate" where
  "daysAgoDate now n = (fst now - int n, 0)"

section \<open>Dashboard: weekly counts of the top emotion\<close>

text \<open>
  \<^verbatim>\<open>const top = Array.isArray(it.emotions_top3) && it.emotions_top3[0];
  if (top && top.label) ...\<close>: the label of the first emotion, when there is one and
  it is a non-empty string.
\<close>

definition top_label :: "entry \<Rightarrow> string option" where
  "top_label it =
     (case emotions_top3 it of
        None \<Rightarrow> None
      | Some [] \<Rightarrow> None
      | Some (e # _) \<Rightarrow>
          (case label e of
             None \<Rightarrow> None
           | Some l \<Rightarrow> if l = [] then None else Some l))"

text \<open>\<^verbatim>\<open>(counts[top.label] || 0)\<close>: the count of a label, 0 when the label has none yet.\<close>

definition count_of :: "(string \<rightharpoonup> nat) \<Rightarrow> string \<Rightarrow> nat" where
  "count_of counts l = (case counts l of None \<Rightarrow> 0 | Some c \<Rightarrow> c)"

definition weekly_step ::
  "(string \<Rightarrow> jsdate option) \<Rightarrow> jsdate \<Rightarrow> entry \<Rightarrow> (string \<rightharpoonup> nat) \<Rightarrow> (string \<rightharpoonup> nat)" where
  "weekly_step parse now it counts =
     (case parseLocalDateFromISOish parse now (created_at it) of
        None \<Rightarrow> counts
      | Some d \<Rightarrow>
          if date_lt d (daysAgoDate now 6) then counts
          else (case top_label it of
                  None \<Rightarrow> counts
                | Some l \<Rightarrow> counts(l \<mapsto> count_of counts l + 1)))"

definition computeWeeklyTop1Counts ::
  "(string \<Rightarrow> jsdate option) \<Rightarrow> jsdate \<Rightarrow> entry list \<Rightarrow> (string \<rightharpoonup> nat)" where
  "computeWeeklyTop1Counts parse now items = fold (weekly_step parse now) items Map.empty"

section \<open>Day streak with one grace day\<close>

text \<open>
  \<^verbatim>\<open>new Set(items.map(it => ymd(parseLocalDateFromISOish(it.created_at))))\<close>: where
  \<^verbatim>\<open>parseLocalDateFromISOish\<close> returns \<^verbatim>\<open>null\<close>, \<^verbatim>\<open>ymd\<close> reads a property of
  \<^verbatim>\<open>null\<close> and the call throws a TypeError.
\<close>

fun day_keys ::
  "(string \<Rightarrow> jsdate option) \<Rightarrow> jsdate \<Rightarrow> entry list \<Rightarrow> js_error + int list" where
  "day_keys parse now [] = Inr []"
| "day_keys parse now (it # its) =
     (case parseLocalDateFromISOish parse now (created_at it) of
        None \<Rightarrow> Inl TypeError
      | Some d \<Rightarrow>
          (case day_keys parse now its of
             Inl e \<Rightarrow> Inl e
           | Inr ks \<Rightarrow> Inr (ymd d # ks)))"

text \<open>
  The loop \<^verbatim>\<open>for (let i=0; i<365; i++)\<close> of \<^verbatim>\<open>computeStreakWithGrace\<close>, with the
  day \<open>d\<close> it looks at, the streak and the number of consecutive misses so far.
\<close>

function streak_loop :: "int set \<Rightarrow> int \<Rightarrow> nat \<Rightarrow> nat \<Rightarrow> nat \<Rightarrow> nat" where
  "streak_loop S d i streak misses =
     (if i < 365 then
        (if d \<in> S then streak_loop S (d - 1) (i + 1) (streak + 1) 0
         else if misses + 1 \<ge> 2 then streak
         else streak_loop S (d - 1) (i + 1) streak (misses + 1))
      else streak)"
  by pat_completeness auto
termination
  by (relation "measure (\<lambda>(S, d, i, streak, misses). 365 - i)") auto

declare streak_loop.simps [simp del]

definition computeStreakWithGrace ::
  "(string \<Rightarrow> jsdate option) \<Rightarrow> jsdate \<Rightarrow> entry list \<Rightarrow> js_error + nat" where
  "computeStreakWithGrace parse now items =
     (case day_keys parse now items of
        Inl e \<Rightarrow> Inl e
      | Inr ks \<Rightarrow> Inr (streak_loop (set ks) (ymd now) 0 0 0))"

text \<open>
  Notions used to state the properties of the two aggregates: an entry is \<open>counted\<close> for
  a label when the weekly aggregation adds it to that label's count; day \<open>j\<close> before
  today is \<open>present\<close> when the set of day keys has it; and the scan
  \<open>scan_stops_at\<close> \<open>k\<close> when \<open>k\<close> is the 365-day horizon or the first day that is the
  second of two consecutive missed days.
\<close>

definition counted ::
  "(string \<Rightarrow> jsdate option) \<Rightarrow> jsdate \<Rightarrow> string \<Rightarrow> entry \<Rightarrow> bool" where
  "counted parse now l it =
     (case parseLocalDateFromISOish parse now (created_at it) of
        None \<Rightarrow> False
      | Some d \<Rightarrow> \<not> date_lt d (daysAgoDate now 6) \<and> top_label it = Some l)"

definition present :: "int list \<Rightarrow> jsdate \<Rightarrow> nat \<Rightarrow> bool" where
  "present ks now j = (ymd now - int j \<in> set ks)"

definition scan_stops_at :: "int list \<Rightarrow> jsdate \<Rightarrow> nat \<Rightarrow> bool" where
  "scan_stops_at ks now k =
     (k \<le> 365 \<and>
      (\<forall>j \<in> {1..<k}. present ks now j \<or> present ks now (j - 1)) \<and>
      (k = 365 \<or> (1 \<le> k \<and> \<not> present ks now k \<and> \<not> present ks now (k - 1))))"

text \<open>Sample data: three parseable \<^verbatim>\<open>created_at\<close> strings and two ways to build an entry.\<close>

definition parse3 :: "string \<Rightarrow> jsdate option" where
  "parse3 s = (if s = ''d0'' then Some (100, 5) else if s = ''d1'' then Some (99, 0)
     else if s = ''d3'' then Some (97, 7) else None)"

definition entry_at :: "nat \<Rightarrow> string option \<Rightarrow> entry" where
  "entry_at n c = \<lparr>entry_id = n, created_at = c, emotions_top3 = None,
     transcript_memo = None, imageTags_memo = None, emotions_all_memo = None\<rparr>"

definition entry_top :: "nat \<Rightarrow> string option \<Rightarrow> string \<Rightarrow> entry" where
  "entry_top n c l = \<lparr>entry_id = n, created_at = c, emotions_top3 = Some [\<lparr>label = Some l\<rparr>],
     transcript_memo = None, imageTags_memo = None, emotions_all_memo = None\<rparr>"

section \<open>Entry cache: lazy hydration and search\<close>

text \<open>
  Text is a \<open>string\<close>. The model covers ASCII text: on it \<^verbatim>\<open>toLowerCase\<close> maps
  \<^verbatim>\<open>A\<close>..\<^verbatim>\<open>Z\<close> to \<^verbatim>\<open>a\<close>..\<^verbatim>\<open>z\<close>, and the whitespace class of regular expressions (which
  is also what \<^verbatim>\<open>trim\<close> removes) holds tab, line feed, vertical tab, form feed, carriage return
  and space.
\<close>

definition lower_char :: "char \<Rightarrow> char" where
  "lower_char c =
     (let n = (of_char c :: nat) in if 65 \<le> n \<and> n \<le> 90 then char_of (n + 32) else c)"

definition toLowerCase :: "string \<Rightarrow> string" where
  "toLowerCase s = map lower_char s"

definition is_space :: "char \<Rightarrow> bool" where
  "is_space c = (let n = (of_char c :: nat) in (9 \<le> n \<and> n \<le> 13) \<or> n = 32)"

definition trim :: "string \<Rightarrow> string" where
  "trim s = rev (dropWhile is_space (rev (dropWhile is_space s)))"

text \<open>
  \<^verbatim>\<open>s.split(/sep+/).filter(Boolean)\<close>: the maximal runs of characters that are not
  separators, in order. \<open>cur\<close> holds the run being read, last character first.
\<close>

fun tokens_acc :: "(char \<Rightarrow> bool) \<Rightarrow> string \<Rightarrow> string \<Rightarrow> string list" where
  "tokens_acc sep [] cur = (if cur = [] then [] else [rev cur])"
| "tokens_acc sep (c # cs) cur =
     (if sep c then (if cur = [] then tokens_acc sep cs [] else rev cur # tokens_acc sep cs [])
      else tokens_acc sep cs (c # cur))"

definition tokens :: "(char \<Rightarrow> bool) \<Rightarrow> string \<Rightarrow> string list" where
  "tokens sep s = tokens_acc sep s []"

text \<open>The separator class \<^verbatim>\<open>[^a-z0-9]\<close> of the caption split.\<close>

definition not_lower_alnum :: "char \<Rightarrow> bool" where
  "not_lower_alnum c =
     (let n = (of_char c :: nat) in \<not> ((97 \<le> n \<and> n \<le> 122) \<or> (48 \<le> n \<and> n \<le> 57)))"

text \<open>\<^verbatim>\<open>s.includes(t)\<close>: \<open>t\<close> occurs in \<open>s\<close> as a contiguous run.\<close>

fun starts_with :: "string \<Rightarrow> string \<Rightarrow> bool" where
  "starts_with s [] = True"
| "starts_with [] (t # ts) = False"
| "starts_with (c # cs) (t # ts) = (c = t \<and> starts_with cs ts)"

fun includes_str :: "string \<Rightarrow> string \<Rightarrow> bool" where
  "includes_str [] t = (t = [])"
| "includes_str (c # cs) t = (starts_with (c # cs) t \<or> includes_str cs t)"

text \<open>\<^verbatim>\<open>tags.join(' ')\<close>.\<close>

fun join_space :: "string list \<Rightarrow> string" where
  "join_space [] = []"
| "join_space [x] = x"
| "join_space (x # y # ys) = x @ CHR '' '' # join_space (y # ys)"

text \<open>
  \<^verbatim>\<open>Array.from(new Set(tags))\<close>: each tag once, in the order of first occurrence.
\<close>

definition dedupe :: "string list \<Rightarrow> string list" where
  "dedupe xs = rev (remdups (rev xs))"

text \<open>
  What \<^verbatim>\<open>fetchEntry(id)\<close> resolves to, as far as \<^verbatim>\<open>ensureEntryCached\<close> reads it. The
  entry store is a function from an id to this reply or to the message of the error that
  \<^verbatim>\<open>fetchEntry\<close> throws.
\<close>

record image =
  tags :: "string list option"
  caption :: "string option"

record full_entry =
  transcript :: "string option"
  images :: "image list option"
  emotions_all :: "(string \<times> nat) list option"

type_synonym store = "nat \<Rightarrow> string + full_entry"

definition image_tags :: "image \<Rightarrow> string list" where
  "image_tags im =
     map toLowerCase (case tags im of None \<Rightarrow> [] | Some ts \<Rightarrow> ts) @
     (case caption im of
        None \<Rightarrow> []
      | Some c \<Rightarrow> if c = [] then [] else tokens not_lower_alnum (toLowerCase c))"

text \<open>
  \<^verbatim>\<open>ensureEntryCached(it)\<close> mutates the cached entry and may call the entry store: the
  model returns the entry as it is afterwards, or the error thrown, and threads the list
  of the ids requested from the store so far.
\<close>

definition ensureEntryCached ::
  "store \<Rightarrow> entry \<Rightarrow> nat list \<Rightarrow> (string + entry) \<times> nat list" where
  "ensureEntryCached fetch it fetched =
     (if transcript_memo it = None \<or> imageTags_memo it = None then
        (case fetch (entry_id it) of
           Inl e \<Rightarrow> (Inl e, fetched @ [entry_id it])
         | Inr full \<Rightarrow>
             (Inr (it\<lparr>transcript_memo := Some (case transcript full of None \<Rightarrow> [] | Some t \<Rightarrow> t),
                      imageTags_memo := Some (dedupe (concat (map image_tags
                         (case images full of None \<Rightarrow> [] | Some ims \<Rightarrow> ims)))),
                      emotions_all_memo := emotions_all full\<rparr>),
              fetched @ [entry_id it]))
      else (Inr it, fetched))"

text \<open>
  The test of the search loop on a hydrated entry:
  \<^verbatim>\<open>terms.every(t => text.includes(t) || tags.includes(t))\<close> with
  \<^verbatim>\<open>text = it._transcript.toLowerCase()\<close> and \<^verbatim>\<open>tags = (it._imageTags || []).join(' ')\<close>.
  The loop reaches it only after \<^verbatim>\<open>ensureEntryCached\<close> returned, when both fields
  are set.
\<close>

definition entry_text :: "entry \<Rightarrow> string" where
  "entry_text it = toLowerCase (case transcript_memo it of None \<Rightarrow> [] | Some t \<Rightarrow> t)"

definition entry_tags :: "entry \<Rightarrow> string" where
  "entry_tags it = join_space (case imageTags_memo it of None \<Rightarrow> [] | Some ts \<Rightarrow> ts)"

definition entry_ok :: "string list \<Rightarrow> entry \<Rightarrow> bool" where
  "entry_ok terms it =
     list_all (\<lambda>t. includes_str (entry_text it) t \<or> includes_str (entry_tags it) t) terms"

text \<open>
  The loop \<^verbatim>\<open>for (const it of items)\<close> of \<^verbatim>\<open>renderHistoryWithQuery\<close>. It returns
  the results (or the error that ended the loop), the cached entries as the loop left
  them, and the ids requested from the store.
\<close>

fun search_loop ::
  "store \<Rightarrow> string list \<Rightarrow> entry list \<Rightarrow> nat list \<Rightarrow>
     (string + entry list) \<times> entry list \<times> nat list" where
  "search_loop fetch terms [] fetched = (Inr [], [], fetched)"
| "search_loop fetch terms (it # its) fetched =
     (case ensureEntryCached fetch it fetched of
        (Inl e, fetched1) \<Rightarrow> (Inl e, it # its, fetched1)
      | (Inr it1, fetched1) \<Rightarrow>
          (case search_loop fetch terms its fetched1 of
             (Inl e, its1, fetched2) \<Rightarrow> (Inl e, it1 # its1, fetched2)
           | (Inr results, its1, fetched2) \<Rightarrow>
               (Inr (if entry_ok terms it1 then it1 # results else results),
                it1 # its1, fetched2)))"

text \<open>
  \<^verbatim>\<open>renderHistoryWithQuery(query)\<close> over the cache \<^verbatim>\<open>allEntries\<close>: the list handed to
  \<^verbatim>\<open>renderHistoryList\<close>, the cache afterwards and the ids requested from the store. The
  history panel is taken to be in the page.
\<close>

definition renderHistoryWithQuery ::
  "store \<Rightarrow> string \<Rightarrow> entry list \<Rightarrow> nat list \<Rightarrow>
     (string + entry list) \<times> entry list \<times> nat list" where
  "renderHistoryWithQuery fetch query items fetched =
     (let q = trim query in
      if q \<noteq> [] then search_loop fetch (tokens is_space (toLowerCase q)) items fetched
      else (Inr items, items, fetched))"

definition is_hydrated :: "entry \<Rightarrow> bool" where
  "is_hydrated it = (transcript_memo it \<noteq> None \<and> imageTags_memo it \<noteq> None)"

text \<open>\<open>t\<close> is a substring of \<open>s\<close>.\<close>

definition substring_of :: "string \<Rightarrow> string \<Rightarrow> bool" where
  "substring_of t s = (\<exists>p q. s = p @ t @ q)"

text \<open>
  The search predicate in the words of the specification: every term is a substring of the
  lowercased transcript or of the joined image tags.
\<close>

definition matches_all :: "string list \<Rightarrow> entry \<Rightarrow> bool" where
  "matches_all terms it =
     (\<forall>t \<in> set terms. substring_of t (entry_text it) \<or> substring_of t (entry_tags it))"

text \<open>
  Sample data: hydrated entries with a transcript and image tags (\<open>e1\<close>, \<open>e2\<close> and
  \<open>e3\<close> are the three entries of the specification's search example), an entry store
  that has nothing and one that has entry 5.
\<close>

definition hydrated :: "nat \<Rightarrow> string \<Rightarrow> string list \<Rightarrow> entry" where
  "hydrated n text ts = \<lparr>entry_id = n, created_at = None, emotions_top3 = None,
     transcript_memo = Some text, imageTags_memo = Some ts, emotions_all_memo = None\<rparr>"

definition e1 :: entry where "e1 = hydrated 1 ''I felt happy today'' []"

definition e2 :: entry where "e2 = hydrated 2 ''quiet happy walk'' [''calm'']"

definition e3 :: entry where "e3 = hydrated 3 ''sad walk'' [''happy'']"

definition no_store :: store where
  "no_store n = Inl ''Failed to load entry''"


section \<open>Recording: cumulative upload, flush on stop\<close>

text \<open>
  The recording code of \<^verbatim>\<open>app.js\<close> is event driven: the click handler of the record
  button is an \<^verbatim>\<open>async\<close> function that suspends at each \<^verbatim>\<open>await\<close>, and while it is
  suspended the recorder's events and the responses of the chunk uploads are handled.
  The model is a transition system. Its state holds the global variables of the script,
  the two texts on screen, the point where the click handler is suspended (\<open>pc\<close>), the
  requests sent to \<^verbatim>\<open>/transcribe/chunk\<close> with the ones that have settled, and the list of
  the effects performed so far, in order. An event is one task of the event loop; \<open>step\<close>
  runs its handlers, and then the click handler when the promise it waits for has
  resolved, up to its next suspension.

  Of the page the model keeps the status line, the transcript box and the label of the
  record button; the audio player, the mood row and the character counter are left out.

  An audio \<^verbatim>\<open>Blob\<close> is the list of its bytes, \<^verbatim>\<open>new Blob(recordedChunks)\<close> the
  concatenation. The promise of an upload is named by the position of its request in
  \<open>requests\<close>.
\<close>

type_synonym blob = "nat list"

datatype recorder_state = inactive | recording | paused

record chunk_form =
  session_id :: "string option"
  index :: nat
  form_file :: blob

datatype message = Msg string | FinalizeFailed nat

datatype status_text =
    StatusOther string
  | StatusBlank
  | StatusFinalizing
  | StatusLive string
  | StatusFinal "nat option"

datatype box_text = Plain string | MicError message

datatype btn_label = LabelRecord | LabelStop

datatype effect =
    GetUserMedia
  | RecorderStart nat
  | RequestData
  | AwaitFlushed
  | RecorderStop
  | AwaitStopped
  | StopTracks
  | PostChunk nat
  | AwaitUpload
  | AwaitAllSettled "nat list"
  | PostFinalize "string option"
  | ConsoleWarn

datatype pc = Ready | WaitUserMedia | WaitFlushed | WaitStopped | WaitSettled "nat list" | WaitFinalize

record app =
  mediaRecorder :: "recorder_state option"
  recordedChunks :: "blob list"
  lastTranscribe :: "(string option \<times> string) option"
  liveSessionId :: "string option"
  pendingUploads :: "nat list"
  chunkCounter :: nat
  statusLine :: status_text
  transcriptBox :: box_text
  recordBtn :: btn_label
  requests :: "chunk_form list"
  settled :: "nat list"
  effects :: "effect list"
  pc :: pc

text \<open>
  \<^verbatim>\<open>uploadCumulativeBlob()\<close>. The form carries \<^verbatim>\<open>liveSessionId\<close>, the counter (which
  \<^verbatim>\<open>String(chunkCounter++)\<close> renders in decimal) and the cumulative blob as
  \<open>form_file\<close>; the file name, which holds the time, is left out. \<^verbatim>\<open>fetch\<close> sends the request at once; its promise
  \<open>p\<close> is pushed on \<^verbatim>\<open>pendingUploads\<close>, of which \<^verbatim>\<open>slice(-8)\<close> keeps the last eight.
  The function has no \<^verbatim>\<open>await\<close>: it runs to its end when called.
\<close>

definition uploadCumulativeBlob :: "app \<Rightarrow> app" where
  "uploadCumulativeBlob st =
     (let blob = concat (recordedChunks st) in
      if length blob = 0 then st
      else
        let form = \<lparr>session_id = liveSessionId st, index = chunkCounter st, form_file = blob\<rparr>;
            p = length (requests st);
            st1 = st\<lparr>chunkCounter := chunkCounter st + 1,
                     requests := requests st @ [form],
                     effects := effects st @ [PostChunk p],
                     pendingUploads := pendingUploads st @ [p]\<rparr>
        in if length (pendingUploads st1) > 8
           then st1\<lparr>pendingUploads := drop (length (pendingUploads st1) - 8) (pendingUploads st1)\<rparr>
           else st1)"

text \<open>
  \<^verbatim>\<open>x || ''\<close> and \<^verbatim>\<open>x || null\<close> on a field that is a string when it is there: the empty
  string is falsy.
\<close>

definition or_empty :: "string option \<Rightarrow> string" where
  "or_empty s = (case s of None \<Rightarrow> [] | Some t \<Rightarrow> t)"

definition or_null :: "string option \<Rightarrow> string option" where
  "or_null s = (case s of None \<Rightarrow> None | Some t \<Rightarrow> if t = [] then None else Some t)"

text \<open>
  What the fetch of a chunk comes to: the promise chain rejects before the last
  \<^verbatim>\<open>then\<close> (no connection, or a body that is not JSON), or there is a reply with
  \<^verbatim>\<open>r.ok\<close> and the \<^verbatim>\<open>transcript\<close> field of its body.
\<close>

datatype chunk_outcome = ChunkRejected | ChunkReply bool "string option"

definition console_warn :: "app \<Rightarrow> app" where
  "console_warn st = st\<lparr>effects := effects st @ [ConsoleWarn]\<rparr>"

text \<open>
  The handlers chained on the fetch in \<^verbatim>\<open>uploadCumulativeBlob\<close>. A reply that is not
  ok throws, and so does \<^verbatim>\<open>liveSessionId.slice\<close> when \<^verbatim>\<open>liveSessionId\<close> is
  \<^verbatim>\<open>null\<close>; the final \<^verbatim>\<open>catch\<close> logs a warning.
\<close>

definition chunk_response :: "chunk_outcome \<Rightarrow> app \<Rightarrow> app" where
  "chunk_response out st =
     (case out of
        ChunkRejected \<Rightarrow> console_warn st
      | ChunkReply ok tr \<Rightarrow>
          if \<not> ok then console_warn st
          else
            let t = trim (or_empty tr) in
            if mediaRecorder st = Some recording \<and> t \<noteq> [] then
              (case liveSessionId st of
                 None \<Rightarrow> console_warn st
               | Some sid \<Rightarrow> st\<lparr>statusLine := StatusLive (take 8 sid), transcriptBox := Plain t\<rparr>)
            else st)"

text \<open>
  \<^verbatim>\<open>mediaRecorder.ondataavailable\<close>: an event without data or with an empty blob is
  dropped; otherwise the blob is pushed and the cumulative upload started.
\<close>

definition ondataavailable :: "blob option \<Rightarrow> app \<Rightarrow> app" where
  "ondataavailable e st =
     (case e of
        None \<Rightarrow> st
      | Some d \<Rightarrow>
          if length d = 0 then st
          else uploadCumulativeBlob (st\<lparr>recordedChunks := recordedChunks st @ [d]\<rparr>))"

text \<open>
  The click handler, cut at its suspension points. First the stop branch, taken when
  there is a recorder and it is recording. \<open>stop_begin\<close> runs up to
  \<^verbatim>\<open>await flushed\<close>; \<open>stop_after_flush\<close> from there to \<^verbatim>\<open>await stopped\<close> (the call
  \<^verbatim>\<open>mediaRecorder.stop()\<close> makes the recorder inactive at once); \<open>stop_after_stopped\<close>
  runs steps 3 and 4: the promise of \<^verbatim>\<open>uploadCumulativeBlob()\<close> is already resolved
  when awaited, and \<^verbatim>\<open>Promise.allSettled(pendingUploads)\<close> looks at the array as it is
  then. \<open>post_finalize\<close> is the fetch of step 5.
\<close>

definition stop_begin :: "app \<Rightarrow> app" where
  "stop_begin st =
     st\<lparr>recordBtn := LabelRecord, statusLine := StatusFinalizing,
        effects := effects st @ [RequestData, AwaitFlushed], pc := WaitFlushed\<rparr>"

definition stop_after_flush :: "app \<Rightarrow> app" where
  "stop_after_flush st =
     st\<lparr>mediaRecorder := Some inactive,
        effects := effects st @ [RecorderStop, AwaitStopped], pc := WaitStopped\<rparr>"

definition post_finalize :: "app \<Rightarrow> app" where
  "post_finalize st =
     st\<lparr>effects := effects st @ [PostFinalize (liveSessionId st)], pc := WaitFinalize\<rparr>"

definition all_settled :: "nat list \<Rightarrow> app \<Rightarrow> bool" where
  "all_settled hs st = list_all (\<lambda>h. h \<in> set (settled st)) hs"

definition stop_after_stopped :: "app \<Rightarrow> app" where
  "stop_after_stopped st =
     (let st1 = uploadCumulativeBlob st;
          st2 = st1\<lparr>effects := effects st1 @ [AwaitUpload]\<rparr>
      in if pendingUploads st2 \<noteq> [] then
           (let st3 = st2\<lparr>effects := effects st2 @ [AwaitAllSettled (pendingUploads st2)]\<rparr>
            in if all_settled (pendingUploads st2) st3 then post_finalize st3
               else st3\<lparr>pc := WaitSettled (pendingUploads st2)\<rparr>)
         else post_finalize st2)"

text \<open>
  The \<^verbatim>\<open>catch\<close> block of the click handler, which every exception of either branch
  reaches.
\<close>

definition catch_block :: "message \<Rightarrow> app \<Rightarrow> app" where
  "catch_block m st = st\<lparr>statusLine := StatusBlank, transcriptBox := MicError m, pc := Ready\<rparr>"

text \<open>
  What the fetch of \<^verbatim>\<open>/transcribe/finalize\<close> comes to: a rejection (of the fetch or of
  \<^verbatim>\<open>res.json()\<close>) with its message, or a reply with \<^verbatim>\<open>res.ok\<close>, \<^verbatim>\<open>res.status\<close> and the
  fields of the body.
\<close>

record finalize_json =
  detail :: "string option"
  words :: "nat option"
  final_transcript :: "string option"
  audio_filename :: "string option"

datatype finalize_outcome = FinalizeRejected string | FinalizeReply bool nat finalize_json

definition finalize_response :: "finalize_outcome \<Rightarrow> app \<Rightarrow> app" where
  "finalize_response out st =
     (case out of
        FinalizeRejected m \<Rightarrow> catch_block (Msg m) st
      | FinalizeReply ok status j \<Rightarrow>
          if \<not> ok then
            catch_block (case or_null (detail j) of
                           None \<Rightarrow> FinalizeFailed status
                         | Some d \<Rightarrow> Msg d) st
          else
            st\<lparr>statusLine := StatusFinal (words j),
               transcriptBox := Plain (or_empty (final_transcript j)),
               lastTranscribe := Some (or_null (audio_filename j), or_empty (final_transcript j)),
               liveSessionId := None,
               recordedChunks := [],
               pendingUploads := [],
               chunkCounter := 0,
               pc := Ready\<rparr>)"

text \<open>
  The start branch: it awaits \<^verbatim>\<open>getUserMedia\<close> and then, given the stream and the
  identifier drawn by \<^verbatim>\<open>crypto.randomUUID()\<close>, resets the session state and starts a
  new recorder with a slice of 4000 ms.
\<close>

definition start_begin :: "app \<Rightarrow> app" where
  "start_begin st = st\<lparr>effects := effects st @ [GetUserMedia], pc := WaitUserMedia\<rparr>"

definition start_session :: "string \<Rightarrow> app \<Rightarrow> app" where
  "start_session uuid st =
     st\<lparr>recordedChunks := [],
        pendingUploads := [],
        chunkCounter := 0,
        liveSessionId := Some uuid,
        statusLine := StatusLive (take 8 uuid),
        transcriptBox := Plain [],
        mediaRecorder := Some recording,
        effects := effects st @ [RecorderStart 4000],
        recordBtn := LabelStop,
        pc := Ready\<rparr>"

text \<open>
  The events. \<open>Click\<close> is a click on the record button while no click handler is
  suspended (the model does not cover a second click during a handler's await).
  \<open>UserMedia\<close> settles \<^verbatim>\<open>getUserMedia\<close>, with an error message or with the identifier
  of the new session. The recorder fires \<open>DataAvailable\<close> while it records and once more
  between the call of \<^verbatim>\<open>stop()\<close> and its \<open>Stopped\<close> event, at which
  \<^verbatim>\<open>mediaRecorder.onstop\<close> stops the tracks of the stream. \<open>ChunkSettled h\<close> settles
  the fetch of request \<open>h\<close>, once. \<open>FinalizeSettled\<close> settles the fetch of the finalize
  call. \<open>step\<close> is \<open>None\<close> where the event cannot occur.
\<close>

datatype event =
    Click
  | UserMedia "string + string"
  | DataAvailable "blob option"
  | Stopped
  | ChunkSettled nat chunk_outcome
  | FinalizeSettled finalize_outcome

fun step :: "event \<Rightarrow> app \<Rightarrow> app option" where
  "step Click st =
     (if pc st \<noteq> Ready then None
      else if mediaRecorder st = Some recording then Some (stop_begin st)
      else Some (start_begin st))"
| "step (UserMedia r) st =
     (if pc st \<noteq> WaitUserMedia then None
      else (case r of
              Inl m \<Rightarrow> Some (catch_block (Msg m) st)
            | Inr uuid \<Rightarrow> Some (start_session uuid st)))"
| "step (DataAvailable e) st =
     (if mediaRecorder st = Some recording \<or> pc st = WaitStopped then
        (let st1 = ondataavailable e st
         in if pc st1 = WaitFlushed then Some (stop_after_flush st1) else Some st1)
      else None)"
| "step Stopped st =
     (if pc st \<noteq> WaitStopped then None
      else Some (stop_after_stopped (st\<lparr>effects := effects st @ [StopTracks]\<rparr>)))"
| "step (ChunkSettled h out) st =
     (if h < length (requests st) \<and> h \<notin> set (settled st) then
        (let st1 = chunk_response out (st\<lparr>settled := h # settled st\<rparr>)
         in (case pc st1 of
               WaitSettled hs \<Rightarrow> if all_settled hs st1 then Some (post_finalize st1) else Some st1
             | _ \<Rightarrow> Some st1))
      else None)"
| "step (FinalizeSettled out) st =
     (if pc st \<noteq> WaitFinalize then None else Some (finalize_response out st))"

fun run :: "event list \<Rightarrow> app \<Rightarrow> app option" where
  "run [] st = Some st"
| "run (e # es) st = (case step e st of None \<Rightarrow> None | Some st1 \<Rightarrow> run es st1)"

text \<open>The state of the script when the page has loaded.\<close>

definition init :: app where
  "init = \<lparr>mediaRecorder = None, recordedChunks = [], lastTranscribe = None,
     liveSessionId = None, pendingUploads = [], chunkCounter = 0,
     statusLine = StatusOther [], transcriptBox = Plain [], recordBtn = LabelRecord,
     requests = [], settled = [], effects = [], pc = Ready\<rparr>"

section \<open>Notions used to state the properties of a recording session\<close>




definition cumulative_form :: "string option \<Rightarrow> blob list \<Rightarrow> nat \<Rightarrow> chunk_form" where
  "cumulative_form sid frags k =
     \<lparr>session_id = sid, index = k, form_file = concat (take (k + 1) frags)\<rparr>"




text \<open>
  The steps of the stop handshake are the effects of the click handler itself; the
  chunk posts and the warnings come from the handlers that run in between.
  \<open>handshake base st\<close> is the list of the handshake steps performed since the effect log
  had length \<open>base\<close>.
\<close>

definition is_handshake :: "effect \<Rightarrow> bool" where
  "is_handshake e = (case e of PostChunk h \<Rightarrow> False | ConsoleWarn \<Rightarrow> False | _ \<Rightarrow> True)"

definition handshake :: "nat \<Rightarrow> app \<Rightarrow> effect list" where
  "handshake base st = filter is_handshake (drop base (effects st))"





definition nine_run :: "event list" where
  "nine_run = [Click, UserMedia (Inr ''A'')] @ replicate 9 (DataAvailable (Some [1]))"



definition failed_finalize_run :: "event list" where
  "failed_finalize_run =
     [Click, UserMedia (Inr ''A''), DataAvailable (Some [1, 2]), Click,
      DataAvailable (Some [3]), DataAvailable None, Stopped,
      ChunkSettled 0 (ChunkReply True (Some ''hi'')), ChunkSettled 1 (ChunkReply True None),
      ChunkSettled 2 ChunkRejected,
      FinalizeSettled (FinalizeReply False 500
        \<lparr>detail = None, words = None, final_transcript = None, audio_filename = None\<rparr>)]"

definition stale_run :: "event list" where
  "stale_run =
     [Click, UserMedia (Inr ''A'')] @
     replicate 9 (DataAvailable (Some [1])) @
     [Click, DataAvailable (Some [2]), DataAvailable None, Stopped] @
     map (\<lambda>h. ChunkSettled h (ChunkReply True None)) [3..<11] @
     [FinalizeSettled (FinalizeReply True 200
        \<lparr>detail = None, words = Some 2, final_transcript = Some ''final words'',
         audio_filename = Some ''a.webm''\<rparr>),
      Click, UserMedia (Inr ''B'')]"

section \<open>Properties of the dashboard aggregates\<close>

lemma streak_loop_count:
  assumes P: "\<And>j. P j = (T - int j \<in> S)"
    and "i \<le> k" "k \<le> 365" "m \<le> 1"
    and "\<forall>j. i \<le> j \<and> j < k \<longrightarrow> \<not> P j \<longrightarrow> (if j = i then m = 0 else P (j - 1))"
    and "k = 365 \<or> (\<not> P k \<and> (if k = i then m = 1 else \<not> P (k - 1)))"
  shows "streak_loop S (T - int i) i s m = s + card {j. i \<le> j \<and> j < k \<and> P j}"
  using assms(2-)
proof (induction "k - i" arbitrary: i s m)
  case 0
  then have ik: "i = k" by simp
  have e: "{j. i \<le> j \<and> j < k \<and> P j} = {}" using ik by auto
  show ?case
  proof (cases "k = 365")
    case True
    then show ?thesis using ik e by (simp add: streak_loop.simps)
  next
    case False
    then have "\<not> P k" "m = 1" "k < 365" using 0 ik by auto
    then show ?thesis using ik e P by (simp add: streak_loop.simps)
  qed
next
  case (Suc n)
  then have lt: "i < k" "i < 365" by auto
  have split: "{j. i \<le> j \<and> j < k \<and> P j} =
      (if P i then {i} else {}) \<union> {j. Suc i \<le> j \<and> j < k \<and> P j}"
    using lt by (auto simp: Suc_le_eq le_less)
  have fin: "finite {j. Suc i \<le> j \<and> j < k \<and> P j}" by simp
  have d: "T - int i - 1 = T - int (Suc i)" by simp
  have prev: "P (j - 1)" if "Suc i \<le> j" "j < k" "\<not> P j" for j
  proof -
    have "i \<le> j \<and> j < k" "j \<noteq> i" using that by auto
    with Suc.prems(4) that(3) show ?thesis by metis
  qed
  have later: "\<forall>j. Suc i \<le> j \<and> j < k \<longrightarrow> \<not> P j \<longrightarrow>
      (if j = Suc i then P i else P (j - 1))"
    using prev by (metis diff_Suc_1)
  show ?case
  proof (cases "P i")
    case True
    have "streak_loop S (T - int (Suc i)) (Suc i) (s + 1) 0 =
        (s + 1) + card {j. Suc i \<le> j \<and> j < k \<and> P j}"
    proof (rule Suc.hyps(1))
      show "n = k - Suc i" using Suc.hyps(2) by simp
      show "Suc i \<le> k" using lt by simp
      show "k \<le> 365" by fact
      show "(0::nat) \<le> 1" by simp
      show "\<forall>j. Suc i \<le> j \<and> j < k \<longrightarrow> \<not> P j \<longrightarrow>
          (if j = Suc i then (0::nat) = 0 else P (j - 1))"
        using later by auto
      show "k = 365 \<or> \<not> P k \<and> (if k = Suc i then (0::nat) = 1 else \<not> P (k - 1))"
        using Suc.prems(5) lt True by auto
    qed
    moreover have "card {j. i \<le> j \<and> j < k \<and> P j} =
        1 + card {j. Suc i \<le> j \<and> j < k \<and> P j}"
      using True fin by (subst split) simp
    ultimately show ?thesis
      using True lt P[of i] by (subst streak_loop.simps) (simp add: d)
  next
    case False
    then have m0: "m = 0" using Suc.prems(4) lt by auto
    have "streak_loop S (T - int (Suc i)) (Suc i) s 1 =
        s + card {j. Suc i \<le> j \<and> j < k \<and> P j}"
    proof (rule Suc.hyps(1))
      show "n = k - Suc i" using Suc.hyps(2) by simp
      show "Suc i \<le> k" using lt by simp
      show "k \<le> 365" by fact
      show "(1::nat) \<le> 1" by simp
      show "\<forall>j. Suc i \<le> j \<and> j < k \<longrightarrow> \<not> P j \<longrightarrow>
          (if j = Suc i then (1::nat) = 0 else P (j - 1))"
        using later False by auto
      show "k = 365 \<or> \<not> P k \<and> (if k = Suc i then (1::nat) = 1 else \<not> P (k - 1))"
        using Suc.prems(5) lt by auto
    qed
    moreover have "card {j. i \<le> j \<and> j < k \<and> P j} =
        card {j. Suc i \<le> j \<and> j < k \<and> P j}"
      using False by (subst split) simp
    ultimately show ?thesis
      using False lt m0 P[of i] by (subst streak_loop.simps) (simp add: d)
  qed
qed

lemma streak_example: "streak_loop {T, T - 1, T - 3} T 0 0 0 = 3"
  by (simp add: streak_loop.simps)

lemma streak_loop_ge: "s \<le> streak_loop S d i s m"
  by (induction S d i s m rule: streak_loop.induct) (subst streak_loop.simps, auto)

lemma card_filter_upt: "card {j. j < k \<and> P j} = length (filter P [0..<k])"
proof -
  have "{j. j < k \<and> P j} = set (filter P [0..<k])" by auto
  then have "card {j. j < k \<and> P j} = card (set (filter P [0..<k]))" by simp
  also have "\<dots> = length (filter P [0..<k])" by (rule distinct_card) simp
  finally show ?thesis .
qed

text \<open>Every scan stops somewhere: at the horizon at the latest.\<close>

lemma scan_stops_somewhere: "\<exists>k. scan_stops_at ks now k"
proof (cases "\<exists>j<365. 1 \<le> j \<and> \<not> present ks now j \<and> \<not> present ks now (j - 1)")
  case True
  let ?P = "\<lambda>j. 1 \<le> j \<and> \<not> present ks now j \<and> \<not> present ks now (j - 1)"
  let ?k = "LEAST j. ?P j"
  from True obtain j where j: "j < 365" "?P j" by blast
  have p: "?P ?k" using j(2) by (rule LeastI)
  have "?k \<le> j" using j(2) by (rule Least_le)
  then have le: "?k \<le> 365" using j(1) by simp
  have "\<not> ?P i" if "i < ?k" for i using that by (rule not_less_Least)
  then have "\<forall>i \<in> {1..<?k}. present ks now i \<or> present ks now (i - 1)" by auto
  then have "scan_stops_at ks now ?k" using p le unfolding scan_stops_at_def by blast
  then show ?thesis ..
next
  case False
  then have "scan_stops_at ks now 365" by (auto simp: scan_stops_at_def)
  then show ?thesis ..
qed

text \<open>
  Claim C6. The streak is computed by a scan backward from today over at most 365 days
  that counts every day with an entry and stops only at the second of two consecutive
  missed days: when the scan stops at day \<open>k\<close> (the horizon, or the first such day), the
  streak is the number of present days among the \<open>k\<close> days scanned, and there is such a
  day \<open>k\<close> for every set of entries. For the present days today, today - 1 and
  today - 3 the streak is 3.
\<close>

theorem computeStreakWithGrace_scan:
  assumes "day_keys parse now items = Inr ks"
  shows "(scan_stops_at ks now k \<longrightarrow>
            computeStreakWithGrace parse now items =
              Inr (length (filter (present ks now) [0..<k]))) \<and>
         (set ks = {ymd now, ymd now - 1, ymd now - 3} \<longrightarrow>
            computeStreakWithGrace parse now items = Inr 3) \<and>
         (\<exists>k. scan_stops_at ks now k)"
proof (intro conjI impI)
  assume st: "scan_stops_at ks now k"
  have "streak_loop (set ks) (ymd now - int 0) 0 0 0 =
      0 + card {j. 0 \<le> j \<and> j < k \<and> present ks now j}"
  proof (rule streak_loop_count)
    show "present ks now j = (ymd now - int j \<in> set ks)" for j by (simp add: present_def)
    show "0 \<le> k" by simp
    show "k \<le> 365" using st by (simp add: scan_stops_at_def)
    show "(0::nat) \<le> 1" by simp
    show "\<forall>j. 0 \<le> j \<and> j < k \<longrightarrow> \<not> present ks now j \<longrightarrow>
        (if j = 0 then (0::nat) = 0 else present ks now (j - 1))"
      using st by (auto simp: scan_stops_at_def)
    show "k = 365 \<or> \<not> present ks now k \<and>
        (if k = 0 then (0::nat) = 1 else \<not> present ks now (k - 1))"
      using st by (auto simp: scan_stops_at_def)
  qed
  then show "computeStreakWithGrace parse now items =
      Inr (length (filter (present ks now) [0..<k]))"
    using assms by (simp add: computeStreakWithGrace_def card_filter_upt)
next
  assume "set ks = {ymd now, ymd now - 1, ymd now - 3}"
  then show "computeStreakWithGrace parse now items = Inr 3"
    using assms by (simp add: computeStreakWithGrace_def streak_example)
next
  show "\<exists>k. scan_stops_at ks now k" by (rule scan_stops_somewhere)
qed

text \<open>
  The scan on entries of today, yesterday and three days ago stops at day 5 with a streak of 3.
\<close>

theorem computeStreakWithGrace_scan_witness:
  "day_keys parse3 (100, 42)
      [entry_at 1 (Some ''d1''), entry_at 2 (Some ''d0''), entry_at 3 (Some ''d3'')] =
      Inr [99, 100, 97] \<and>
   scan_stops_at [99, 100, 97] (100, 42) 5 \<and>
   set [99, 100, 97 :: int] = {ymd (100, 42), ymd (100, 42) - 1, ymd (100, 42) - 3} \<and>
   computeStreakWithGrace parse3 (100, 42)
      [entry_at 1 (Some ''d1''), entry_at 2 (Some ''d0''), entry_at 3 (Some ''d3'')] =
      Inr (length (filter (present [99, 100, 97] (100, 42)) [0..<5])) \<and>
   computeStreakWithGrace parse3 (100, 42)
      [entry_at 1 (Some ''d1''), entry_at 2 (Some ''d0''), entry_at 3 (Some ''d3'')] = Inr 3"
proof -
  have k: "day_keys parse3 (100, 42)
      [entry_at 1 (Some ''d1''), entry_at 2 (Some ''d0''), entry_at 3 (Some ''d3'')] =
      Inr [99, 100, 97]"
    by (simp add: parseLocalDateFromISOish_def parse3_def entry_at_def ymd_def)
  have s: "scan_stops_at [99, 100, 97] (100, 42) 5"
    by code_simp
  have e: "set [99, 100, 97 :: int] = {ymd (100, 42), ymd (100, 42) - 1, ymd (100, 42) - 3}"
    by (auto simp: ymd_def)
  note t = computeStreakWithGrace_scan [OF k, of 5]
  from t s have a: "computeStreakWithGrace parse3 (100, 42)
      [entry_at 1 (Some ''d1''), entry_at 2 (Some ''d0''), entry_at 3 (Some ''d3'')] =
      Inr (length (filter (present [99, 100, 97] (100, 42)) [0..<5]))"
    by blast
  from t e have b: "computeStreakWithGrace parse3 (100, 42)
      [entry_at 1 (Some ''d1''), entry_at 2 (Some ''d0''), entry_at 3 (Some ''d3'')] = Inr 3"
    by blast
  show ?thesis by (intro conjI) (fact k s e a b)+
qed

lemma day_keys_append:
  "day_keys parse now (xs @ ys) =
     (case day_keys parse now xs of
        Inl e \<Rightarrow> Inl e
      | Inr a \<Rightarrow> (case day_keys parse now ys of Inl e \<Rightarrow> Inl e | Inr b \<Rightarrow> Inr (a @ b)))"
  by (induction xs) (auto split: option.splits sum.splits)

text \<open>
  Claim C9. The streak is a function of the set of distinct days of the entries: two
  entry lists with the same set of days have the same streak, and a further entry on a day
  that is already present, wherever it is put in the list, does not change the streak.
\<close>

theorem streak_depends_on_day_set:
  "(day_keys parse now xs = Inr kx \<and> day_keys parse now ys = Inr ky \<and> set kx = set ky \<longrightarrow>
      computeStreakWithGrace parse now xs = computeStreakWithGrace parse now ys) \<and>
   (day_keys parse now (xs @ ys) = Inr ks \<and>
    parseLocalDateFromISOish parse now (created_at it) = Some d \<and> ymd d \<in> set ks \<longrightarrow>
      computeStreakWithGrace parse now (xs @ it # ys) =
        computeStreakWithGrace parse now (xs @ ys))"
proof (intro conjI impI)
  assume "day_keys parse now xs = Inr kx \<and> day_keys parse now ys = Inr ky \<and> set kx = set ky"
  then show "computeStreakWithGrace parse now xs = computeStreakWithGrace parse now ys"
    by (simp add: computeStreakWithGrace_def)
next
  assume a: "day_keys parse now (xs @ ys) = Inr ks \<and>
    parseLocalDateFromISOish parse now (created_at it) = Some d \<and> ymd d \<in> set ks"
  then obtain ka kb where k: "day_keys parse now xs = Inr ka" "day_keys parse now ys = Inr kb"
      "ks = ka @ kb"
    by (auto simp: day_keys_append split: sum.splits)
  then have "day_keys parse now (xs @ it # ys) = Inr (ka @ ymd d # kb)"
    using a by (simp add: day_keys_append)
  moreover have "set (ka @ ymd d # kb) = set ks" using a k by auto
  ultimately show "computeStreakWithGrace parse now (xs @ it # ys) =
      computeStreakWithGrace parse now (xs @ ys)"
    using a by (simp add: computeStreakWithGrace_def)
qed

text \<open>
  A second entry dated yesterday leaves the streak of a two-entry list as it is.
\<close>

theorem streak_depends_on_day_set_witness:
  "day_keys parse3 (100, 42) ([entry_at 1 (Some ''d1'')] @ [entry_at 2 (Some ''d0'')]) =
      Inr [99, 100] \<and>
   parseLocalDateFromISOish parse3 (100, 42) (created_at (entry_at 3 (Some ''d1''))) =
      Some (99, 0) \<and>
   ymd (99, 0) \<in> set [99, 100] \<and>
   computeStreakWithGrace parse3 (100, 42)
      ([entry_at 1 (Some ''d1'')] @ entry_at 3 (Some ''d1'') # [entry_at 2 (Some ''d0'')]) =
   computeStreakWithGrace parse3 (100, 42)
      ([entry_at 1 (Some ''d1'')] @ [entry_at 2 (Some ''d0'')])"
proof -
  have k: "day_keys parse3 (100, 42) ([entry_at 1 (Some ''d1'')] @ [entry_at 2 (Some ''d0'')]) =
      Inr [99, 100]"
    by (simp add: parseLocalDateFromISOish_def parse3_def entry_at_def ymd_def)
  have p: "parseLocalDateFromISOish parse3 (100, 42) (created_at (entry_at 3 (Some ''d1''))) =
      Some (99, 0)"
    by (simp add: parseLocalDateFromISOish_def parse3_def entry_at_def)
  have m: "ymd (99, 0) \<in> set [99, 100]" by (simp add: ymd_def)
  show ?thesis
    using streak_depends_on_day_set [of parse3 "(100, 42)" "[entry_at 1 (Some ''d1'')]"
        "[99]" "[entry_at 2 (Some ''d0'')]" "[100]" "[99, 100]" "entry_at 3 (Some ''d1'')" "(99, 0)"]
      k p m by simp
qed

lemma weekly_step_count:
  "count_of (weekly_step parse now it m) l =
     count_of m l + (if counted parse now l it then 1 else 0)"
  by (auto simp: weekly_step_def counted_def count_of_def split: option.splits)

lemma fold_weekly_count:
  "count_of (fold (weekly_step parse now) items m) l =
     count_of m l + length (filter (counted parse now l) items)"
  by (induction items arbitrary: m) (simp_all add: weekly_step_count)

lemma weekly_count:
  "count_of (computeWeeklyTop1Counts parse now items) l =
     length (filter (counted parse now l) items)"
  using fold_weekly_count [of parse now items Map.empty l]
  by (simp add: computeWeeklyTop1Counts_def count_of_def)

lemma now_in_window: "\<not> date_lt now (daysAgoDate now 6)"
  by (simp add: date_lt_def daysAgoDate_def)

text \<open>
  Claim C10. An entry whose \<^verbatim>\<open>created_at\<close> is present (a non-empty string, which is
  what the test \<^verbatim>\<open>!s\<close> of the code lets through) and does not parse as a date is dated
  now: the weekly aggregation counts it for its top label, and the day keys of the streak
  computation hold today, so that the streak is at least 1.
\<close>

theorem unparseable_created_at_counts_as_now:
  assumes "created_at it = Some s" and "s \<noteq> []" and "parse s = None"
  shows "parseLocalDateFromISOish parse now (created_at it) = Some now \<and>
    (\<forall>l. top_label it = Some l \<longrightarrow>
       count_of (computeWeeklyTop1Counts parse now (xs @ it # ys)) l =
         count_of (computeWeeklyTop1Counts parse now (xs @ ys)) l + 1) \<and>
    (\<forall>ks. day_keys parse now (xs @ it # ys) = Inr ks \<longrightarrow> ymd now \<in> set ks) \<and>
    (\<forall>n. computeStreakWithGrace parse now (xs @ it # ys) = Inr n \<longrightarrow> 1 \<le> n)"
proof -
  have p: "parseLocalDateFromISOish parse now (created_at it) = Some now"
    using assms by (simp add: parseLocalDateFromISOish_def)
  have w: "count_of (computeWeeklyTop1Counts parse now (xs @ it # ys)) l =
      count_of (computeWeeklyTop1Counts parse now (xs @ ys)) l + 1"
    if "top_label it = Some l" for l
    using that p by (simp add: weekly_count counted_def now_in_window)
  have k: "ymd now \<in> set ks" if "day_keys parse now (xs @ it # ys) = Inr ks" for ks
    using that p by (auto simp: day_keys_append split: sum.splits)
  have n: "1 \<le> n" if c: "computeStreakWithGrace parse now (xs @ it # ys) = Inr n" for n
  proof -
    from c obtain ks where ks: "day_keys parse now (xs @ it # ys) = Inr ks"
        and n: "n = streak_loop (set ks) (ymd now) 0 0 0"
      by (auto simp: computeStreakWithGrace_def split: sum.splits)
    have "ymd now \<in> set ks" using k ks by simp
    then have "n = streak_loop (set ks) (ymd now - 1) 1 1 0"
      using n by (subst (asm) streak_loop.simps) simp
    then show ?thesis using streak_loop_ge [of 1 "set ks" "ymd now - 1" 1 0] by simp
  qed
  show ?thesis using p w k n by blast
qed

text \<open>
  An entry with the unparseable date \<^verbatim>\<open>soon\<close> and top label \<^verbatim>\<open>joy\<close>: one count for
  \<^verbatim>\<open>joy\<close> and a streak of 1.
\<close>

theorem unparseable_created_at_counts_as_now_witness:
  "created_at (entry_top 7 (Some ''soon'') ''joy'') = Some ''soon'' \<and> ''soon'' \<noteq> [] \<and>
   parse3 ''soon'' = None \<and>
   top_label (entry_top 7 (Some ''soon'') ''joy'') = Some ''joy'' \<and>
   count_of (computeWeeklyTop1Counts parse3 (100, 42)
      ([] @ entry_top 7 (Some ''soon'') ''joy'' # [])) ''joy'' = 1 \<and>
   computeStreakWithGrace parse3 (100, 42) ([] @ entry_top 7 (Some ''soon'') ''joy'' # []) = Inr 1"
proof -
  have a: "created_at (entry_top 7 (Some ''soon'') ''joy'') = Some ''soon''"
    by (simp add: entry_top_def)
  have b: "''soon'' \<noteq> []" by simp
  have c: "parse3 ''soon'' = None" by (simp add: parse3_def)
  have t: "top_label (entry_top 7 (Some ''soon'') ''joy'') = Some ''joy''"
    by (simp add: entry_top_def top_label_def)
  note u = unparseable_created_at_counts_as_now
    [of "entry_top 7 (Some ''soon'') ''joy''" "''soon''" parse3 "(100, 42)" "[]" "[]", OF a b c]
  have e: "count_of (computeWeeklyTop1Counts parse3 (100, 42) ([] @ [])) ''joy'' = 0"
    by (simp add: computeWeeklyTop1Counts_def count_of_def)
  from u t e have w: "count_of (computeWeeklyTop1Counts parse3 (100, 42)
      ([] @ entry_top 7 (Some ''soon'') ''joy'' # [])) ''joy'' = 1"
    by simp
  have s: "computeStreakWithGrace parse3 (100, 42)
      ([] @ entry_top 7 (Some ''soon'') ''joy'' # []) = Inr 1"
    by (simp add: computeStreakWithGrace_def parseLocalDateFromISOish_def parse3_def
        entry_top_def ymd_def streak_loop.simps)
  show ?thesis by (intro conjI) (fact a b c t w s)+
qed

section \<open>Properties of search and hydration\<close>

lemma starts_with_iff: "starts_with s t \<longleftrightarrow> (\<exists>q. s = t @ q)"
  by (induction s t rule: starts_with.induct) auto

lemma includes_str_iff: "includes_str s t \<longleftrightarrow> substring_of t s"
proof (induction s)
  case Nil
  then show ?case by (auto simp: substring_of_def)
next
  case (Cons c cs)
  show ?case
  proof
    assume "includes_str (c # cs) t"
    then consider "starts_with (c # cs) t" | "includes_str cs t" by auto
    then show "substring_of t (c # cs)"
    proof cases
      case 1
      then obtain q where "c # cs = t @ q" by (auto simp: starts_with_iff)
      then have "c # cs = [] @ t @ q" by simp
      then show ?thesis unfolding substring_of_def by blast
    next
      case 2
      then obtain p q where "cs = p @ t @ q" using Cons by (auto simp: substring_of_def)
      then have "c # cs = (c # p) @ t @ q" by simp
      then show ?thesis unfolding substring_of_def by blast
    qed
  next
    assume "substring_of t (c # cs)"
    then obtain p q where pq: "c # cs = p @ t @ q" by (auto simp: substring_of_def)
    show "includes_str (c # cs) t"
    proof (cases p)
      case Nil
      then have "starts_with (c # cs) t" using pq by (auto simp: starts_with_iff)
      then show ?thesis by simp
    next
      case (Cons a p')
      then have "cs = p' @ t @ q" using pq by simp
      then have "substring_of t cs" unfolding substring_of_def by blast
      then show ?thesis using Cons.IH by simp
    qed
  qed
qed

lemma entry_ok_iff:
  "entry_ok terms it \<longleftrightarrow>
     (\<forall>t \<in> set terms. substring_of t (entry_text it) \<or> substring_of t (entry_tags it))"
  by (simp add: entry_ok_def list_all_iff includes_str_iff)

lemma ensure_hydrated:
  "is_hydrated it \<Longrightarrow> ensureEntryCached fetch it fetched = (Inr it, fetched)"
  by (auto simp: ensureEntryCached_def is_hydrated_def)

lemma ensure_result:
  "ensureEntryCached fetch it fetched = (Inr it1, fetched1) \<Longrightarrow>
     is_hydrated it1 \<and> entry_id it1 = entry_id it"
  by (auto simp: ensureEntryCached_def is_hydrated_def split: if_splits sum.splits)

lemma search_loop_result:
  "search_loop fetch terms items fetched = (Inr shown, items1, fetched1) \<Longrightarrow>
     shown = filter (entry_ok terms) items1 \<and> map entry_id items1 = map entry_id items \<and>
     list_all is_hydrated items1"
proof (induction items arbitrary: shown items1 fetched fetched1)
  case Nil
  then show ?case by simp
next
  case (Cons it its)
  from Cons.prems obtain it1 f1 where e: "ensureEntryCached fetch it fetched = (Inr it1, f1)"
    by (auto split: prod.splits sum.splits)
  from Cons.prems e obtain res its1 where
    r: "search_loop fetch terms its f1 = (Inr res, its1, fetched1)"
    and s: "shown = (if entry_ok terms it1 then it1 # res else res)" "items1 = it1 # its1"
    by (auto split: prod.splits sum.splits)
  from Cons.IH [OF r] ensure_result [OF e] s show ?case by simp
qed

lemma search_loop_hydrated:
  "list_all is_hydrated items \<Longrightarrow>
     search_loop fetch terms items fetched = (Inr (filter (entry_ok terms) items), items, fetched)"
  by (induction items) (simp_all add: ensure_hydrated)

lemma entry_ok_matches: "entry_ok terms = matches_all terms"
  by (rule ext) (simp add: entry_ok_iff matches_all_def)

lemma render_nonempty:
  "trim query \<noteq> [] \<Longrightarrow>
     renderHistoryWithQuery fetch query items fetched =
       search_loop fetch (tokens is_space (toLowerCase (trim query))) items fetched"
  by (simp add: renderHistoryWithQuery_def Let_def)

lemma example_run:
  "renderHistoryWithQuery no_store ''happy quiet'' [e1, e2, e3] [] = (Inr [e2], [e1, e2, e3], [])"
  by code_simp

text \<open>
  Claim C4 as stated fails on its own example: the search for \<^verbatim>\<open>happy quiet\<close> does not
  return the second and third entry. The third entry has \<^verbatim>\<open>happy\<close> among its tags, but
  \<^verbatim>\<open>quiet\<close> neither in its text nor in its tags.
\<close>

theorem search_example_counterexample:
  "fst (renderHistoryWithQuery no_store ''happy quiet'' [e1, e2, e3] []) \<noteq> Inr [e2, e3]"
  by code_simp

text \<open>
  Claim C4, amended. A query that is empty or all whitespace returns all entries
  unfiltered. Otherwise the terms are the whitespace-separated words of the lowercased
  query, and the search returns exactly the entries, in order, for which every term is a
  substring of the lowercased transcript or of the joined image tags: on a cache that is
  hydrated it returns them without a fetch, and in general whenever it returns, the result
  is that filter of the cache as hydrated by the search. On the three entries of the
  example the query \<^verbatim>\<open>happy quiet\<close> returns the second entry only.
\<close>

theorem search_semantics:
  "(trim query = [] \<longrightarrow>
      renderHistoryWithQuery fetch query items fetched = (Inr items, items, fetched)) \<and>
   (trim query \<noteq> [] \<and> list_all is_hydrated items \<longrightarrow>
      renderHistoryWithQuery fetch query items fetched =
        (Inr (filter (matches_all (tokens is_space (toLowerCase (trim query)))) items),
         items, fetched)) \<and>
   (trim query \<noteq> [] \<and>
    renderHistoryWithQuery fetch query items fetched = (Inr shown, items1, fetched1) \<longrightarrow>
      shown = filter (matches_all (tokens is_space (toLowerCase (trim query)))) items1 \<and>
      map entry_id items1 = map entry_id items \<and> list_all is_hydrated items1) \<and>
   renderHistoryWithQuery no_store ''happy quiet'' [e1, e2, e3] [] =
     (Inr [e2], [e1, e2, e3], [])"
proof (intro conjI impI)
  assume "trim query = []"
  then show "renderHistoryWithQuery fetch query items fetched = (Inr items, items, fetched)"
    by (simp add: renderHistoryWithQuery_def)
next
  assume "trim query \<noteq> [] \<and> list_all is_hydrated items"
  then show "renderHistoryWithQuery fetch query items fetched =
      (Inr (filter (matches_all (tokens is_space (toLowerCase (trim query)))) items),
       items, fetched)"
    by (simp add: renderHistoryWithQuery_def Let_def search_loop_hydrated entry_ok_matches)
next
  assume a: "trim query \<noteq> [] \<and>
    renderHistoryWithQuery fetch query items fetched = (Inr shown, items1, fetched1)"
  then have "search_loop fetch (tokens is_space (toLowerCase (trim query))) items fetched =
      (Inr shown, items1, fetched1)"
    by (metis render_nonempty)
  from search_loop_result [OF this]
  have r: "shown = filter (matches_all (tokens is_space (toLowerCase (trim query)))) items1 \<and>
      map entry_id items1 = map entry_id items \<and> list_all is_hydrated items1"
    by (simp add: entry_ok_matches)
  from r show "shown = filter (matches_all (tokens is_space (toLowerCase (trim query)))) items1"
    by simp
  from r show "map entry_id items1 = map entry_id items" by simp
  from r show "list_all is_hydrated items1" by simp
next
  show "renderHistoryWithQuery no_store ''happy quiet'' [e1, e2, e3] [] =
      (Inr [e2], [e1, e2, e3], [])"
    by (rule example_run)
qed

text \<open>
  An all-whitespace query returns the one cached entry without hydrating it; the query
  \<^verbatim>\<open> Happy  QUIET \<close> has the terms \<^verbatim>\<open>happy\<close> and \<^verbatim>\<open>quiet\<close>.
\<close>

theorem search_semantics_witness:
  "trim ''  '' = [] \<and>
   renderHistoryWithQuery no_store ''  '' [entry_at 5 None] [] =
     (Inr [entry_at 5 None], [entry_at 5 None], []) \<and>
   trim '' Happy  QUIET '' \<noteq> [] \<and> list_all is_hydrated [e1, e2, e3] \<and>
   renderHistoryWithQuery no_store '' Happy  QUIET '' [e1, e2, e3] [] =
     (Inr (filter (matches_all (tokens is_space (toLowerCase (trim '' Happy  QUIET ''))))
        [e1, e2, e3]), [e1, e2, e3], []) \<and>
   tokens is_space (toLowerCase (trim '' Happy  QUIET '')) = [''happy'', ''quiet'']"
proof -
  have a: "trim ''  '' = []" by code_simp
  have b: "trim '' Happy  QUIET '' \<noteq> []" by code_simp
  have c: "list_all is_hydrated [e1, e2, e3]" by code_simp
  have d: "tokens is_space (toLowerCase (trim '' Happy  QUIET '')) = [''happy'', ''quiet'']"
    by code_simp
  from search_semantics [of "''  ''" no_store "[entry_at 5 None]" "[]"] a
  have r1: "renderHistoryWithQuery no_store ''  '' [entry_at 5 None] [] =
     (Inr [entry_at 5 None], [entry_at 5 None], [])"
    by blast
  from search_semantics [of "'' Happy  QUIET ''" no_store "[e1, e2, e3]" "[]"] b c
  have r2: "renderHistoryWithQuery no_store '' Happy  QUIET '' [e1, e2, e3] [] =
     (Inr (filter (matches_all (tokens is_space (toLowerCase (trim '' Happy  QUIET ''))))
        [e1, e2, e3]), [e1, e2, e3], [])"
    by blast
  show ?thesis by (intro conjI) (fact a b c d r1 r2)+
qed





section \<open>Properties of the recording session\<close>

subsection \<open>What the handlers change\<close>

lemma upload_empty: "concat (recordedChunks st) = [] \<Longrightarrow> uploadCumulativeBlob st = st"
  by (simp add: uploadCumulativeBlob_def del: concat_eq_Nil_conv)

lemma upload_nonempty:
  "concat (recordedChunks st) \<noteq> [] \<Longrightarrow>
     uploadCumulativeBlob st =
       st\<lparr>chunkCounter := chunkCounter st + 1,
          requests := requests st @
            [\<lparr>session_id = liveSessionId st, index = chunkCounter st,
              form_file = concat (recordedChunks st)\<rparr>],
          effects := effects st @ [PostChunk (length (requests st))],
          pendingUploads :=
            drop (length (pendingUploads st) + 1 - 8) (pendingUploads st @ [length (requests st)])\<rparr>"
  by (simp add: uploadCumulativeBlob_def Let_def del: concat_eq_Nil_conv)

lemma upload_same [simp]:
  "recordedChunks (uploadCumulativeBlob st) = recordedChunks st"
  "liveSessionId (uploadCumulativeBlob st) = liveSessionId st"
  "mediaRecorder (uploadCumulativeBlob st) = mediaRecorder st"
  "settled (uploadCumulativeBlob st) = settled st"
  "pc (uploadCumulativeBlob st) = pc st"
  "statusLine (uploadCumulativeBlob st) = statusLine st"
  "transcriptBox (uploadCumulativeBlob st) = transcriptBox st"
  by (cases "concat (recordedChunks st) = []"; simp add: upload_empty upload_nonempty)+

lemma upload_requests:
  "requests (uploadCumulativeBlob st) =
     requests st @
       (if concat (recordedChunks st) = [] then []
        else [\<lparr>session_id = liveSessionId st, index = chunkCounter st,
               form_file = concat (recordedChunks st)\<rparr>])"
  by (cases "concat (recordedChunks st) = []")
    (simp_all add: upload_empty upload_nonempty del: concat_eq_Nil_conv)

lemma upload_pending:
  "pendingUploads (uploadCumulativeBlob st) =
     (if concat (recordedChunks st) = [] then pendingUploads st
      else drop (length (pendingUploads st) + 1 - 8) (pendingUploads st @ [length (requests st)]))"
  by (cases "concat (recordedChunks st) = []")
    (simp_all add: upload_empty upload_nonempty del: concat_eq_Nil_conv)



lemma chunk_response_same [simp]:
  "recordedChunks (chunk_response out st) = recordedChunks st"
  "liveSessionId (chunk_response out st) = liveSessionId st"
  "mediaRecorder (chunk_response out st) = mediaRecorder st"
  "settled (chunk_response out st) = settled st"
  "pc (chunk_response out st) = pc st"
  "requests (chunk_response out st) = requests st"
  "pendingUploads (chunk_response out st) = pendingUploads st"
  "chunkCounter (chunk_response out st) = chunkCounter st"
  by (simp_all add: chunk_response_def console_warn_def Let_def
      split: chunk_outcome.splits option.splits)

lemmas handler_defs = stop_begin_def start_begin_def catch_block_def start_session_def
  ondataavailable_def stop_after_flush_def stop_after_stopped_def post_finalize_def
  finalize_response_def Let_def

subsection \<open>The cap on tracked uploads\<close>

lemma step_pending_le:
  "step e st = Some st' \<Longrightarrow> length (pendingUploads st) \<le> 8 \<Longrightarrow>
     length (pendingUploads st') \<le> 8"
  by (cases e)
    (auto simp: handler_defs upload_pending
      split: if_splits sum.splits option.splits pc.splits finalize_outcome.splits
      simp del: concat_eq_Nil_conv)

lemma step_requests_prefix:
  "step e st = Some st' \<Longrightarrow> take (length (requests st)) (requests st') = requests st"
  by (cases e)
    (auto simp: handler_defs upload_requests
      split: if_splits sum.splits option.splits pc.splits finalize_outcome.splits
      simp del: concat_eq_Nil_conv)

lemma run_pending_le:
  "run evs st = Some st' \<Longrightarrow> length (pendingUploads st) \<le> 8 \<Longrightarrow>
     length (pendingUploads st') \<le> 8"
  by (induction evs arbitrary: st) (auto split: option.splits dest: step_pending_le)

lemma run_requests_prefix:
  "run evs st = Some st' \<Longrightarrow> take (length (requests st)) (requests st') = requests st"
proof (induction evs arbitrary: st)
  case Nil
  then show ?case by simp
next
  case (Cons e es)
  then obtain st1 where s: "step e st = Some st1" and r: "run es st1 = Some st'"
    by (auto split: option.splits)
  have a: "take (length (requests st)) (requests st1) = requests st"
    by (rule step_requests_prefix [OF s])
  have b: "take (length (requests st1)) (requests st') = requests st1"
    by (rule Cons.IH [OF r])
  have "length (take (length (requests st)) (requests st1)) = length (requests st)"
    using a by simp
  then have "length (requests st) \<le> length (requests st1)"
    by (simp add: min_def split: if_splits)
  then have "take (length (requests st)) (requests st') =
      take (length (requests st)) (take (length (requests st1)) (requests st'))"
    by (simp add: min_def)
  then show ?case using a b by simp
qed

lemma run_init_pending_le: "run evs init = Some st' \<Longrightarrow> length (pendingUploads st') \<le> 8"
  using run_pending_le [of evs init st'] by (simp add: init_def)

lemma nine_run_state:
  "run nine_run init =
     Some \<lparr>mediaRecorder = Some recording,
       recordedChunks = replicate 9 [1], lastTranscribe = None, liveSessionId = Some ''A'',
       pendingUploads = [1, 2, 3, 4, 5, 6, 7, 8], chunkCounter = 9,
       statusLine = StatusLive ''A'', transcriptBox = Plain [], recordBtn = LabelStop,
       requests = map (cumulative_form (Some ''A'') (replicate 9 [1])) [0..<9],
       settled = [],
       effects = [GetUserMedia, RecorderStart 4000] @ map PostChunk [0..<9],
       pc = Ready\<rparr>"
  by code_simp

text \<open>
  Claim C7. When \<^verbatim>\<open>uploadCumulativeBlob\<close> submits an upload, the tracked promises
  afterwards are the last eight of the ones tracked before followed by the new one, so at
  most eight; the request list only grows by the new request and nothing settles, and
  every request that has not settled, tracked or not, can still settle. In every state
  reached from the initial one, and from any state with at most eight tracked uploads, at
  most eight are tracked, and no request that was sent disappears.
\<close>

theorem pending_uploads_capped:
  "(concat (recordedChunks st) \<noteq> [] \<longrightarrow>
      length (pendingUploads (uploadCumulativeBlob st)) \<le> 8 \<and>
      pendingUploads (uploadCumulativeBlob st) =
        drop (length (pendingUploads st) + 1 - 8) (pendingUploads st @ [length (requests st)]) \<and>
      requests (uploadCumulativeBlob st) =
        requests st @ [\<lparr>session_id = liveSessionId st, index = chunkCounter st,
                        form_file = concat (recordedChunks st)\<rparr>] \<and>
      settled (uploadCumulativeBlob st) = settled st \<and>
      (\<forall>h out. h < length (requests st) \<and> h \<notin> set (settled st) \<longrightarrow>
         step (ChunkSettled h out) (uploadCumulativeBlob st) \<noteq> None)) \<and>
   (run evs init = Some st' \<longrightarrow> length (pendingUploads st') \<le> 8) \<and>
   (length (pendingUploads st) \<le> 8 \<and> run evs st = Some st' \<longrightarrow>
      length (pendingUploads st') \<le> 8 \<and>
      take (length (requests st)) (requests st') = requests st)"
proof (intro conjI impI allI)
  assume ne: "concat (recordedChunks st) \<noteq> []"
  show "pendingUploads (uploadCumulativeBlob st) =
      drop (length (pendingUploads st) + 1 - 8) (pendingUploads st @ [length (requests st)])"
    using ne by (simp add: upload_pending del: concat_eq_Nil_conv drop_append)
  then show "length (pendingUploads (uploadCumulativeBlob st)) \<le> 8"
    by (simp del: drop_append)
  show "requests (uploadCumulativeBlob st) =
      requests st @ [\<lparr>session_id = liveSessionId st, index = chunkCounter st,
                      form_file = concat (recordedChunks st)\<rparr>]"
    using ne by (simp add: upload_requests del: concat_eq_Nil_conv)
  show "settled (uploadCumulativeBlob st) = settled st" by simp
  fix h out
  assume "h < length (requests st) \<and> h \<notin> set (settled st)"
  then show "step (ChunkSettled h out) (uploadCumulativeBlob st) \<noteq> None"
    by (auto simp: upload_requests Let_def split: pc.splits simp del: concat_eq_Nil_conv)
next
  assume "run evs init = Some st'"
  then show "length (pendingUploads st') \<le> 8" by (rule run_init_pending_le)
next
  assume a: "length (pendingUploads st) \<le> 8 \<and> run evs st = Some st'"
  then show "length (pendingUploads st') \<le> 8" using run_pending_le by blast
  from a show "take (length (requests st)) (requests st') = requests st"
    using run_requests_prefix by blast
qed

text \<open>
  With nine fragments captured and eight uploads tracked, a tenth upload drops the oldest
  tracked one; the first request, dropped earlier, can still settle.
\<close>

theorem pending_uploads_capped_witness:
  "run nine_run init \<noteq> None \<and>
   concat (recordedChunks (the (run nine_run init))) \<noteq> [] \<and>
   pendingUploads (the (run nine_run init)) = [1, 2, 3, 4, 5, 6, 7, 8] \<and>
   pendingUploads (uploadCumulativeBlob (the (run nine_run init))) = [2, 3, 4, 5, 6, 7, 8, 9] \<and>
   length (requests (uploadCumulativeBlob (the (run nine_run init)))) = 10 \<and>
   0 < length (requests (the (run nine_run init))) \<and>
   0 \<notin> set (settled (the (run nine_run init))) \<and>
   step (ChunkSettled 0 ChunkRejected) (uploadCumulativeBlob (the (run nine_run init))) \<noteq> None \<and>
   length (pendingUploads (the (run nine_run init))) \<le> 8 \<and>
   take (length (requests init)) (requests (the (run nine_run init))) = requests init"
proof -
  let ?s = "the (run nine_run init)"
  have s: "?s = \<lparr>mediaRecorder = Some recording,
       recordedChunks = replicate 9 [1], lastTranscribe = None, liveSessionId = Some ''A'',
       pendingUploads = [1, 2, 3, 4, 5, 6, 7, 8], chunkCounter = 9,
       statusLine = StatusLive ''A'', transcriptBox = Plain [], recordBtn = LabelStop,
       requests = map (cumulative_form (Some ''A'') (replicate 9 [1])) [0..<9],
       settled = [],
       effects = [GetUserMedia, RecorderStart 4000] @ map PostChunk [0..<9],
       pc = Ready\<rparr>"
    by (simp add: nine_run_state)
  have a: "run nine_run init \<noteq> None" by (simp add: nine_run_state)
  then have a': "run nine_run init = Some ?s" by simp
  have b: "concat (recordedChunks ?s) \<noteq> []" by (simp add: s)
  have c: "pendingUploads ?s = [1, 2, 3, 4, 5, 6, 7, 8]" by (simp add: s)
  have d: "length (requests ?s) = 9" by (simp add: s)
  have e: "0 < length (requests ?s)" "0 \<notin> set (settled ?s)" by (simp_all add: s)
  have i: "length (pendingUploads init) \<le> 8" by (simp add: init_def)
  note t = pending_uploads_capped [of ?s nine_run ?s]
  from t b c d have f: "pendingUploads (uploadCumulativeBlob ?s) = [2, 3, 4, 5, 6, 7, 8, 9]"
    by simp
  from t b d have g: "length (requests (uploadCumulativeBlob ?s)) = 10" by simp
  from t b e have h: "step (ChunkSettled 0 ChunkRejected) (uploadCumulativeBlob ?s) \<noteq> None"
    by blast
  from t a' have j: "length (pendingUploads ?s) \<le> 8" by blast
  from pending_uploads_capped [of init nine_run ?s] i a'
  have k: "take (length (requests init)) (requests ?s) = requests init" by blast
  show ?thesis by (intro conjI) (fact a b c f g e h j k)+
qed

subsection \<open>Cumulative payloads and chunk indices\<close>










lemma stop_after_stopped_same [simp]:
  "recordedChunks (stop_after_stopped st) = recordedChunks st"
  "liveSessionId (stop_after_stopped st) = liveSessionId st"
  "mediaRecorder (stop_after_stopped st) = mediaRecorder st"
  "settled (stop_after_stopped st) = settled st"
  "requests (stop_after_stopped st) = requests (uploadCumulativeBlob st)"
  "chunkCounter (stop_after_stopped st) = chunkCounter (uploadCumulativeBlob st)"
  "pendingUploads (stop_after_stopped st) = pendingUploads (uploadCumulativeBlob st)"
  "statusLine (stop_after_stopped st) = statusLine st"
  "transcriptBox (stop_after_stopped st) = transcriptBox st"
  by (simp_all add: stop_after_stopped_def post_finalize_def Let_def)

lemma stop_after_stopped_pc:
  "pc (stop_after_stopped st) =
     (if pendingUploads (uploadCumulativeBlob st) \<noteq> [] \<and>
         \<not> list_all (\<lambda>h. h \<in> set (settled st)) (pendingUploads (uploadCumulativeBlob st))
      then WaitSettled (pendingUploads (uploadCumulativeBlob st)) else WaitFinalize)"
  by (simp add: stop_after_stopped_def post_finalize_def Let_def all_settled_def)














subsection \<open>The stop handshake\<close>

lemma handshake_append:
  "base \<le> length (effects st) \<Longrightarrow> effects st' = effects st @ xs \<Longrightarrow>
     handshake base st' = handshake base st @ filter is_handshake xs"
  by (simp add: handshake_def)













lemma ondataavailable_same [simp]:
  "liveSessionId (ondataavailable e st) = liveSessionId st"
  "mediaRecorder (ondataavailable e st) = mediaRecorder st"
  "settled (ondataavailable e st) = settled st"
  "pc (ondataavailable e st) = pc st"
  "statusLine (ondataavailable e st) = statusLine st"
  "transcriptBox (ondataavailable e st) = transcriptBox st"
  by (simp_all add: ondataavailable_def split: option.splits)
















text \<open>
  The stop branch is never stuck: at each suspension point the event it waits for can
  occur and moves it on, and once every tracked upload has settled the finalize call is
  sent.
\<close>

lemma stop_progress:
  "(pc st = WaitFlushed \<and> mediaRecorder st = Some recording \<longrightarrow>
      (\<exists>st'. step (DataAvailable e) st = Some st' \<and> pc st' = WaitStopped)) \<and>
   (pc st = WaitStopped \<longrightarrow>
      (\<exists>st'. step Stopped st = Some st' \<and>
         (pc st' = WaitFinalize \<or> pc st' = WaitSettled (pendingUploads st')))) \<and>
   (pc st = WaitSettled hs \<and> h < length (requests st) \<and> h \<notin> set (settled st) \<longrightarrow>
      (\<exists>st'. step (ChunkSettled h out) st = Some st' \<and>
         (pc st' = WaitFinalize \<or> pc st' = WaitSettled hs) \<and>
         set (settled st') = insert h (set (settled st)) \<and>
         (set hs \<subseteq> insert h (set (settled st)) \<longrightarrow> pc st' = WaitFinalize)))"
  by (auto simp: Let_def stop_after_flush_def stop_after_stopped_pc post_finalize_def
      all_settled_def list_all_iff)

subsection \<open>Chunk replies\<close>

lemma post_finalize_same [simp]:
  "recordedChunks (post_finalize st) = recordedChunks st"
  "liveSessionId (post_finalize st) = liveSessionId st"
  "mediaRecorder (post_finalize st) = mediaRecorder st"
  "settled (post_finalize st) = settled st"
  "requests (post_finalize st) = requests st"
  "chunkCounter (post_finalize st) = chunkCounter st"
  "pendingUploads (post_finalize st) = pendingUploads st"
  "statusLine (post_finalize st) = statusLine st"
  "transcriptBox (post_finalize st) = transcriptBox st"
  by (simp_all add: post_finalize_def)

lemma chunk_settled_result:
  assumes "step (ChunkSettled h out) st = Some st'"
  shows "st' = chunk_response out (st\<lparr>settled := h # settled st\<rparr>) \<or>
         st' = post_finalize (chunk_response out (st\<lparr>settled := h # settled st\<rparr>))"
  using assms by (auto simp: Let_def split: if_splits pc.splits)

lemma chunk_response_preview:
  "transcriptBox (chunk_response out st) =
     (case out of
        ChunkRejected \<Rightarrow> transcriptBox st
      | ChunkReply ok tr \<Rightarrow>
          if ok \<and> mediaRecorder st = Some recording \<and> trim (or_empty tr) \<noteq> [] \<and>
             liveSessionId st \<noteq> None
          then Plain (trim (or_empty tr)) else transcriptBox st)"
  by (auto simp: chunk_response_def console_warn_def Let_def or_empty_def
      split: chunk_outcome.splits option.splits)

lemma chunk_response_status:
  "statusLine (chunk_response out st) =
     (case out of
        ChunkRejected \<Rightarrow> statusLine st
      | ChunkReply ok tr \<Rightarrow>
          if ok \<and> mediaRecorder st = Some recording \<and> trim (or_empty tr) \<noteq> [] \<and>
             liveSessionId st \<noteq> None
          then StatusLive (take 8 (the (liveSessionId st))) else statusLine st)"
  by (auto simp: chunk_response_def console_warn_def Let_def or_empty_def
      split: chunk_outcome.splits option.splits)

text \<open>
  Claim C2 as stated fails: after session \<^verbatim>\<open>A\<close> has been finalized and session
  \<^verbatim>\<open>B\<close> has started, the reply to the first upload of session \<^verbatim>\<open>A\<close>, which was no
  longer tracked at the stop, replaces the transcript preview of session \<^verbatim>\<open>B\<close>.
\<close>

theorem stale_response_counterexample:
  "map_option liveSessionId (run stale_run init) = Some (Some ''B'') \<and>
   map_option (session_id \<circ> hd \<circ> requests) (run stale_run init) = Some (Some ''A'') \<and>
   map_option transcriptBox (run stale_run init) = Some (Plain []) \<and>
   map_option transcriptBox
     (run (stale_run @ [ChunkSettled 0 (ChunkReply True (Some ''stale words''))]) init) =
     Some (Plain ''stale words'')"
  by code_simp

text \<open>
  Claim C2, amended. The settling of a chunk upload, of whichever session, changes
  neither the chunk sequence, the index counter, the tracked uploads nor the session
  identifier. It leaves the preview and the status line as they are unless a recorder is
  recording; when one is recording and the reply is ok with a transcript that is not blank
  (and there is a session identifier), the preview becomes that transcript: the handler
  looks at the state of the recorder, not at the session of the request.
\<close>

theorem chunk_response_effect:
  assumes "step (ChunkSettled h out) st = Some st'"
  shows "recordedChunks st' = recordedChunks st \<and> chunkCounter st' = chunkCounter st \<and>
    pendingUploads st' = pendingUploads st \<and> liveSessionId st' = liveSessionId st \<and>
    requests st' = requests st \<and>
    (mediaRecorder st \<noteq> Some recording \<longrightarrow>
       transcriptBox st' = transcriptBox st \<and> statusLine st' = statusLine st) \<and>
    (\<forall>tr. out = ChunkReply True tr \<and> mediaRecorder st = Some recording \<and>
        trim (or_empty tr) \<noteq> [] \<and> liveSessionId st \<noteq> None \<longrightarrow>
       transcriptBox st' = Plain (trim (or_empty tr)))"
  using chunk_settled_result [OF assms]
  by (auto simp: chunk_response_preview chunk_response_status split: chunk_outcome.splits)

text \<open>
  A reply while recording sets the preview; the same reply after the recorder has been
  stopped leaves it.
\<close>

theorem chunk_response_effect_witness:
  "step (ChunkSettled 0 (ChunkReply True (Some '' hi ''))) (the (run nine_run init)) \<noteq> None \<and>
   mediaRecorder (the (run nine_run init)) = Some recording \<and>
   trim (or_empty (Some '' hi '')) \<noteq> [] \<and>
   liveSessionId (the (run nine_run init)) \<noteq> None \<and>
   transcriptBox (the (step (ChunkSettled 0 (ChunkReply True (Some '' hi '')))
      (the (run nine_run init)))) = Plain ''hi'' \<and>
   chunkCounter (the (step (ChunkSettled 0 (ChunkReply True (Some '' hi '')))
      (the (run nine_run init)))) = 9 \<and>
   step (ChunkSettled 0 (ChunkReply True (Some '' hi ''))) (stop_after_flush (the (run nine_run init)))
     \<noteq> None \<and>
   mediaRecorder (stop_after_flush (the (run nine_run init))) \<noteq> Some recording \<and>
   transcriptBox (the (step (ChunkSettled 0 (ChunkReply True (Some '' hi '')))
      (stop_after_flush (the (run nine_run init))))) = Plain []"
proof -
  let ?s = "the (run nine_run init)"
  let ?e = "ChunkSettled 0 (ChunkReply True (Some '' hi ''))"
  have s: "?s = \<lparr>mediaRecorder = Some recording,
       recordedChunks = replicate 9 [1], lastTranscribe = None, liveSessionId = Some ''A'',
       pendingUploads = [1, 2, 3, 4, 5, 6, 7, 8], chunkCounter = 9,
       statusLine = StatusLive ''A'', transcriptBox = Plain [], recordBtn = LabelStop,
       requests = map (cumulative_form (Some ''A'') (replicate 9 [1])) [0..<9],
       settled = [],
       effects = [GetUserMedia, RecorderStart 4000] @ map PostChunk [0..<9],
       pc = Ready\<rparr>"
    by (simp add: nine_run_state)
  have a: "step ?e ?s \<noteq> None" by (simp add: s Let_def)
  then have a': "step ?e ?s = Some (the (step ?e ?s))" by simp
  have b: "mediaRecorder ?s = Some recording" by (simp add: s)
  have c: "trim (or_empty (Some '' hi '')) \<noteq> []" by code_simp
  have c': "trim (or_empty (Some '' hi '')) = ''hi''" by code_simp
  have d: "liveSessionId ?s \<noteq> None" by (simp add: s)
  note t = chunk_response_effect [OF a']
  from t b c d have e: "transcriptBox (the (step ?e ?s)) = Plain (trim (or_empty (Some '' hi '')))"
    by blast
  then have e': "transcriptBox (the (step ?e ?s)) = Plain ''hi''" by (simp only: c')
  from t have f: "chunkCounter (the (step ?e ?s)) = 9" by (simp add: s)
  let ?u = "stop_after_flush ?s"
  have g: "step ?e ?u \<noteq> None" by (simp add: s Let_def stop_after_flush_def)
  then have g': "step ?e ?u = Some (the (step ?e ?u))" by simp
  have h: "mediaRecorder ?u \<noteq> Some recording" by (simp add: stop_after_flush_def)
  from chunk_response_effect [OF g'] h
  have "transcriptBox (the (step ?e ?u)) = transcriptBox ?u" by blast
  then have i: "transcriptBox (the (step ?e ?u)) = Plain []"
    by (simp add: s stop_after_flush_def)
  show ?thesis by (intro conjI) (fact a b c d e' f g h i)+
qed

subsection \<open>A failed finalize call\<close>

lemma finalize_failure_fields:
  "liveSessionId (finalize_response (FinalizeReply False status j) st) = liveSessionId st \<and>
   recordedChunks (finalize_response (FinalizeReply False status j) st) = recordedChunks st \<and>
   pendingUploads (finalize_response (FinalizeReply False status j) st) = pendingUploads st \<and>
   chunkCounter (finalize_response (FinalizeReply False status j) st) = chunkCounter st \<and>
   pc (finalize_response (FinalizeReply False status j) st) = Ready \<and>
   statusLine (finalize_response (FinalizeReply False status j) st) = StatusBlank \<and>
   transcriptBox (finalize_response (FinalizeReply False status j) st) =
     MicError (case or_null (detail j) of None \<Rightarrow> FinalizeFailed status | Some d \<Rightarrow> Msg d)"
  by (simp add: finalize_response_def catch_block_def)

text \<open>
  Claim C5, on the code: when the finalize call is answered with an error the
  \<^verbatim>\<open>catch\<close> block shows the error and the click handler ends, with the recorder inactive;
  the session identifier, the recorded chunks, the tracked uploads and the counter are
  left as they were, since the reset of the session state comes after the \<^verbatim>\<open>throw\<close>.
\<close>

theorem finalize_failure_keeps_session_state:
  "map_option liveSessionId (run failed_finalize_run init) = Some (Some ''A'') \<and>
   map_option recordedChunks (run failed_finalize_run init) = Some [[1, 2], [3]] \<and>
   map_option pendingUploads (run failed_finalize_run init) = Some [0, 1, 2] \<and>
   map_option chunkCounter (run failed_finalize_run init) = Some 3 \<and>
   map_option transcriptBox (run failed_finalize_run init) =
     Some (MicError (FinalizeFailed 500)) \<and>
   map_option statusLine (run failed_finalize_run init) = Some StatusBlank \<and>
   map_option mediaRecorder (run failed_finalize_run init) = Some (Some inactive) \<and>
   map_option pc (run failed_finalize_run init) = Some Ready"
  by code_simp

end
